theory Spec2Isabelle
  imports Complex_Main
begin

section \<open>Python values\<close>

text \<open>
  The parsers of \<^verbatim>\<open>backend/context.md\<close> return Python dictionaries whose values are
  strings or \<^verbatim>\<open>None\<close>. A dictionary is an association list in insertion order.
\<close>

datatype pyval = PyNone | PyStr string

type_synonym pydict = "(string \<times> pyval) list"

text \<open>\<^verbatim>\<open>d.get(k)\<close>: the value stored under \<open>k\<close>, \<^verbatim>\<open>None\<close> when the key is absent.\<close>

definition dict_get :: "pydict \<Rightarrow> string \<Rightarrow> pyval" where
  "dict_get d k = (case map_of d k of None \<Rightarrow> PyNone | Some v \<Rightarrow> v)"

text \<open>Truthiness of \<^verbatim>\<open>if structured_log:\<close> on a value that is \<^verbatim>\<open>None\<close> or a dictionary.\<close>

fun truthy :: "pydict option \<Rightarrow> bool" where
  "truthy None = False"
| "truthy (Some d) = (d \<noteq> [])"

section \<open>Regular expressions of the \<^verbatim>\<open>re\<close> module\<close>

text \<open>
  The fragment of Python's pattern syntax that the registry uses: literal text, a single
  character item (a literal, \<^verbatim>\<open>.\<close> or a bracketed set), the greedy repetitions
  \<^verbatim>\<open>*\<close> and \<^verbatim>\<open>+\<close> of such an item, concatenation and named groups
  \<^verbatim>\<open>(?P<name>...)\<close>. A character of a message is a code point below 256. The
  patterns are \<^verbatim>\<open>str\<close> patterns compiled without the ASCII flag, so \<^verbatim>\<open>\w\<close> is the
  underscore or a code point that Unicode classes as alphanumeric: below 256 these are
  the ASCII letters and digits and the code points listed in \<open>is_word\<close>.
\<close>

datatype cclass = CRange char char | CChar char | CWord

datatype atom = AChar char | ADot | ASet "cclass list"

datatype re_pattern =
    Lit string
  | One atom
  | Star atom
  | Plus atom
  | Seq re_pattern re_pattern
  | Group string re_pattern

definition is_word :: "char \<Rightarrow> bool" where
  "is_word c = (let n = (of_char c :: nat) in
     (48 \<le> n \<and> n \<le> 57) \<or> (65 \<le> n \<and> n \<le> 90) \<or> n = 95 \<or> (97 \<le> n \<and> n \<le> 122)
     \<or> n = 170 \<or> (178 \<le> n \<and> n \<le> 179) \<or> n = 181 \<or> (185 \<le> n \<and> n \<le> 186)
     \<or> (188 \<le> n \<and> n \<le> 190) \<or> (192 \<le> n \<and> n \<le> 214) \<or> (216 \<le> n \<and> n \<le> 246)
     \<or> 248 \<le> n)"

fun cclass_ok :: "cclass \<Rightarrow> char \<Rightarrow> bool" where
  "cclass_ok (CRange lo hi) c = ((of_char lo :: nat) \<le> of_char c \<and> (of_char c :: nat) \<le> of_char hi)"
| "cclass_ok (CChar d) c = (c = d)"
| "cclass_ok CWord c = is_word c"

text \<open>Without the DOTALL flag \<^verbatim>\<open>.\<close> matches every character except the newline.\<close>

fun atom_ok :: "atom \<Rightarrow> char \<Rightarrow> bool" where
  "atom_ok (AChar d) c = (c = d)"
| "atom_ok ADot c = (c \<noteq> CHR 0x0A)"
| "atom_ok (ASet items) c = list_ex (\<lambda>i. cclass_ok i c) items"

text \<open>
  The backtracking engine, as the list of its successes in the order in which
  backtracking reaches them. \<open>rep a s\<close> lists what is left of \<open>s\<close> after a greedy
  repetition of \<open>a\<close>: the longest run first, then each shorter one.
\<close>

fun rep :: "atom \<Rightarrow> string \<Rightarrow> string list" where
  "rep a [] = [[]]"
| "rep a (c # s) = (if atom_ok a c then rep a s @ [c # s] else [c # s])"

type_synonym groups = "string \<rightharpoonup> string"

fun matches :: "re_pattern \<Rightarrow> string \<Rightarrow> groups \<Rightarrow> (string \<times> groups) list" where
  "matches (Lit l) s g = (if take (length l) s = l then [(drop (length l) s, g)] else [])"
| "matches (One a) s g =
     (case s of [] \<Rightarrow> [] | c # t \<Rightarrow> if atom_ok a c then [(t, g)] else [])"
| "matches (Star a) s g = map (\<lambda>t. (t, g)) (rep a s)"
| "matches (Plus a) s g =
     (case s of [] \<Rightarrow> [] | c # t \<Rightarrow> if atom_ok a c then map (\<lambda>t. (t, g)) (rep a t) else [])"
| "matches (Seq r1 r2) s g = concat (map (\<lambda>(t, g'). matches r2 t g') (matches r1 s g))"
| "matches (Group n r) s g =
     map (\<lambda>(t, g'). (t, g'(n \<mapsto> take (length s - length t) s))) (matches r s g)"

text \<open>
  A match object: its span in the message and its \<^verbatim>\<open>groupdict()\<close>.
  \<^verbatim>\<open>pattern.search(message)\<close> tries every start offset from the left and returns
  the first success of the engine, or \<^verbatim>\<open>None\<close>.
\<close>

datatype match = Match (span_start: nat) (span_end: nat) (groupdict: groups)

fun search_from :: "re_pattern \<Rightarrow> nat \<Rightarrow> string \<Rightarrow> match option" where
  "search_from r i [] =
     (case matches r [] Map.empty of [] \<Rightarrow> None | (t, g) # _ \<Rightarrow> Some (Match i i g))"
| "search_from r i (c # s) =
     (case matches r (c # s) Map.empty of
        [] \<Rightarrow> search_from r (Suc i) s
      | (t, g) # _ \<Rightarrow> Some (Match i (i + (length (c # s) - length t)) g))"

definition search :: "re_pattern \<Rightarrow> string \<Rightarrow> match option" where
  "search r s = search_from r 0 s"

text \<open>\<^verbatim>\<open>m.group(0)\<close>: the part of the message inside the span of a match.\<close>

definition group0 :: "match \<Rightarrow> string \<Rightarrow> string" where
  "group0 m s = take (span_end m - span_start m) (drop (span_start m) s)"

text \<open>The strings a pattern describes, independently of the engine.\<close>

fun lang :: "re_pattern \<Rightarrow> string set" where
  "lang (Lit l) = {l}"
| "lang (One a) = {w. \<exists>c. w = [c] \<and> atom_ok a c}"
| "lang (Star a) = {w. list_all (atom_ok a) w}"
| "lang (Plus a) = {w. w \<noteq> [] \<and> list_all (atom_ok a) w}"
| "lang (Seq r1 r2) = {w. \<exists>u v. w = u @ v \<and> u \<in> lang r1 \<and> v \<in> lang r2}"
| "lang (Group n r) = lang r"

section \<open>\<^verbatim>\<open>regex_parsers.py\<close>: the deterministic layer\<close>

text \<open>\<^verbatim>\<open>groups.get(name)\<close> on the \<^verbatim>\<open>groupdict()\<close> of a match.\<close>

definition groups_get :: "groups \<Rightarrow> string \<Rightarrow> pyval" where
  "groups_get g k = (case g k of None \<Rightarrow> PyNone | Some v \<Rightarrow> PyStr v)"

definition handle_app_error :: "match \<Rightarrow> pydict" where
  "handle_app_error m = (let groups = groupdict m in
     [(''event_type'', PyStr ''application_crash''),
      (''app_name'', groups_get groups ''app_name''),
      (''module_name'', groups_get groups ''module_name''),
      (''error_code'', groups_get groups ''error_code'')])"

record rule =
  provider_name :: string
  regex :: re_pattern
  handler :: "match \<Rightarrow> pydict"

definition app_error_regex :: re_pattern where
  "app_error_regex =
     Seq (Lit ''Faulting application name: '')
    (Seq (Group ''app_name'' (Plus (ASet [CWord, CChar (CHR ''.'')])))
    (Seq (Lit '', '')
    (Seq (Star ADot)
    (Seq (Lit ''Faulting module name: '')
    (Seq (Group ''module_name'' (Plus (ASet [CWord, CChar (CHR ''.'')])))
    (Seq (Lit '', '')
    (Seq (Star ADot)
    (Seq (Lit ''Exception code: '')
         (Group ''error_code''
            (Seq (Lit ''0x'')
                 (Plus (ASet [CRange (CHR ''0'') (CHR ''9''), CRange (CHR ''a'') (CHR ''f''),
                              CRange (CHR ''A'') (CHR ''F'')]))))))))))))"

definition PARSER_REGISTRY :: "rule list" where
  "PARSER_REGISTRY =
     [\<lparr>provider_name = ''Application Error'', regex = app_error_regex,
       handler = handle_app_error\<rparr>]"

text \<open>The crash report of the specification's scenario, used as test data below.\<close>

abbreviation crash_message :: string where
  "crash_message \<equiv>
     ''Faulting application name: app.exe, Faulting module name: k.dll, Exception code: 0xC0000005''"

abbreviation crash_record :: pydict where
  "crash_record \<equiv>
     [(''event_type'', PyStr ''application_crash''), (''app_name'', PyStr ''app.exe''),
      (''module_name'', PyStr ''k.dll''), (''error_code'', PyStr ''0xC0000005'')]"

text \<open>
  \<^verbatim>\<open>parse_with_regex(provider, message)\<close>; the module-level registry is its first
  argument here.
\<close>

fun parse_with_regex :: "rule list \<Rightarrow> string \<Rightarrow> string \<Rightarrow> pydict option" where
  "parse_with_regex [] provider message = None"
| "parse_with_regex (parser # rest) provider message =
     (if provider_name parser = provider then
        (case search (regex parser) message of
           Some m \<Rightarrow> Some (handler parser m)
         | None \<Rightarrow> parse_with_regex rest provider message)
      else parse_with_regex rest provider message)"

section \<open>\<^verbatim>\<open>config.py\<close> and \<^verbatim>\<open>llm_layer.py\<close>: the constrained extractor\<close>

text \<open>
  What the model service sends back is a JSON value; numbers keep their literal text.
  A call of the patched client either raises (a timeout, a transport error, a reply
  that is not a function call) or returns such a value, which is then validated against
  the response model.
\<close>

datatype json =
    JNull
  | JBool bool
  | JNum string
  | JStr string
  | JArr "json list"
  | JObj "(string \<times> json) list"

datatype llm_outcome = Raised | Returned json

text \<open>Looking a key up in a parsed JSON object: of a repeated key the last entry counts.\<close>

definition obj_get :: "(string \<times> json) list \<Rightarrow> string \<Rightarrow> json option" where
  "obj_get kvs k = map_of (rev kvs) k"

text \<open>
  The fields of \<^verbatim>\<open>ActivityLog\<close>. Each validator reads the entry of its key
  (\<open>None\<close> when the key is absent) and gives \<open>None\<close> for a validation error.
  \<^verbatim>\<open>Literal[...]\<close> with \<^verbatim>\<open>Field(...)\<close> is required and must be one of the listed
  strings; \<^verbatim>\<open>Optional[str] = Field(None)\<close> may be absent or null;
  \<^verbatim>\<open>str = Field(...)\<close> is required and must be a string. A JSON number, boolean,
  array or object is not coerced to a string, and keys outside the schema are ignored.
\<close>

definition event_type_literals :: "string list" where
  "event_type_literals = [''file_interaction'', ''app_lifecycle'', ''system_event'', ''unknown'']"

fun validate_literal :: "string list \<Rightarrow> json option \<Rightarrow> pyval option" where
  "validate_literal allowed (Some (JStr s)) = (if s \<in> set allowed then Some (PyStr s) else None)"
| "validate_literal allowed _ = None"

fun validate_optional_str :: "json option \<Rightarrow> pyval option" where
  "validate_optional_str None = Some PyNone"
| "validate_optional_str (Some JNull) = Some PyNone"
| "validate_optional_str (Some (JStr s)) = Some (PyStr s)"
| "validate_optional_str (Some _) = None"

fun validate_str :: "json option \<Rightarrow> pyval option" where
  "validate_str (Some (JStr s)) = Some (PyStr s)"
| "validate_str _ = None"

text \<open>
  Validation of a reply against \<^verbatim>\<open>ActivityLog\<close>, followed by \<^verbatim>\<open>.dict()\<close>:
  the dictionary of the four fields in declaration order, or \<open>None\<close> when validation
  raises.
\<close>

definition validate_ActivityLog :: "json \<Rightarrow> pydict option" where
  "validate_ActivityLog j =
     (case j of
        JObj kvs \<Rightarrow>
          (case validate_literal event_type_literals (obj_get kvs ''event_type'') of
             None \<Rightarrow> None
           | Some e \<Rightarrow>
          (case validate_optional_str (obj_get kvs ''app_name'') of
             None \<Rightarrow> None
           | Some a \<Rightarrow>
          (case validate_optional_str (obj_get kvs ''file_path'') of
             None \<Rightarrow> None
           | Some f \<Rightarrow>
          (case validate_str (obj_get kvs ''summary'') of
             None \<Rightarrow> None
           | Some y \<Rightarrow>
               Some [(''event_type'', e), (''app_name'', a), (''file_path'', f),
                     (''summary'', y)]))))
      | _ \<Rightarrow> None)"

text \<open>What the scripts print, line by line, without the text of timestamps and exceptions.\<close>

datatype out =
    Fetching string
  | ErrorFetching string
  | RegexFailed string
  | LLMFailed
  | Summary nat
  | Dump "pydict list"

text \<open>
  \<^verbatim>\<open>parse_with_llm(message)\<close>. The client is the service as it answers this call;
  \<^verbatim>\<open>except Exception\<close> catches a failure of the call and a validation error alike.
  The result comes with the lines the function prints.
\<close>

definition parse_with_llm :: "(string \<Rightarrow> llm_outcome) \<Rightarrow> string \<Rightarrow> pydict option \<times> out list" where
  "parse_with_llm client message =
     (case client message of
        Raised \<Rightarrow> (None, [LLMFailed])
      | Returned j \<Rightarrow>
          (case validate_ActivityLog j of
             None \<Rightarrow> (None, [LLMFailed])
           | Some d \<Rightarrow> (Some d, [])))"

text \<open>A reply that the schema accepts, stated on the reply itself.\<close>

definition conforms_ActivityLog :: "json \<Rightarrow> bool" where
  "conforms_ActivityLog j =
     (\<exists>kvs e y. j = JObj kvs
        \<and> obj_get kvs ''event_type'' = Some (JStr e)
        \<and> e \<in> set event_type_literals
        \<and> (obj_get kvs ''app_name'' \<in> {None, Some JNull} \<or> (\<exists>a. obj_get kvs ''app_name'' = Some (JStr a)))
        \<and> (obj_get kvs ''file_path'' \<in> {None, Some JNull} \<or> (\<exists>f. obj_get kvs ''file_path'' = Some (JStr f)))
        \<and> obj_get kvs ''summary'' = Some (JStr y))"

section \<open>\<^verbatim>\<open>log_fetcher.py\<close>: the collector\<close>

text \<open>
  One run of \<^verbatim>\<open>wevtapi.EvtQuery(channel, query)\<close>: the (provider, rendered text)
  pairs it delivers and whether it then raises. The event log is an oracle indexed by
  the number of queries issued before, so that a later query may answer differently.
\<close>

record reader_outcome =
  yielded :: "(string \<times> string) list"
  raised :: bool

text \<open>
  \<^verbatim>\<open>fetch_windows_event_logs(channel, start_time_utc)\<close>, a generator: the events it
  yields, the lines it prints after them, and the number of queries issued so far.
\<close>

definition fetch_windows_event_logs ::
  "(nat \<Rightarrow> string \<Rightarrow> reader_outcome) \<Rightarrow> nat \<Rightarrow> string \<Rightarrow> (string \<times> string) list \<times> out list \<times> nat" where
  "fetch_windows_event_logs evt_query n channel =
     (let r = evt_query n channel
      in (yielded r, (if raised r then [ErrorFetching channel] else []), Suc n))"

section \<open>\<^verbatim>\<open>main.py\<close>: the orchestrator\<close>

record run_state =
  parsed_logs :: "pydict list"
  llm_calls :: "string list"
  stdout :: "out list"
  reader_queries :: nat

text \<open>
  The body of the loop of \<^verbatim>\<open>process_logs\<close> for one event. The model service is an
  oracle indexed by the number of calls made before; \<open>llm_calls\<close> records the message of
  every call.
\<close>

definition funnel_step ::
  "rule list \<Rightarrow> (nat \<Rightarrow> string \<Rightarrow> llm_outcome) \<Rightarrow> run_state \<Rightarrow> string \<times> string \<Rightarrow> run_state" where
  "funnel_step registry svc st ev =
     (case ev of (provider, message) \<Rightarrow>
        (let (structured_log, st1) =
               (case parse_with_regex registry provider message of
                  None \<Rightarrow>
                    (let (res, printed) = parse_with_llm (svc (length (llm_calls st))) message
                     in (res, st\<lparr>llm_calls := llm_calls st @ [message],
                                 stdout := stdout st @ [RegexFailed provider] @ printed\<rparr>))
                | Some d \<Rightarrow> (Some d, st))
         in if truthy structured_log
            then st1\<lparr>parsed_logs := parsed_logs st1 @ [the structured_log]\<rparr>
            else st1))"

definition process_logs ::
  "rule list \<Rightarrow> (nat \<Rightarrow> string \<Rightarrow> reader_outcome) \<Rightarrow> (nat \<Rightarrow> string \<Rightarrow> llm_outcome) \<Rightarrow> run_state" where
  "process_logs registry evt_query svc =
     (let log_channel = ''Application'';
          (events, fetch_out, n) = fetch_windows_event_logs evt_query 0 log_channel;
          st = foldl (funnel_step registry svc)
                 \<lparr>parsed_logs = [], llm_calls = [], stdout = [Fetching log_channel],
                  reader_queries = n\<rparr> events
      in st\<lparr>stdout := stdout st @ fetch_out
                @ [Summary (length (parsed_logs st)), Dump (parsed_logs st)]\<rparr>)"

section \<open>Classification by similarity score\<close>

datatype decision = Matched string | NewCandidate | Unresolved

text \<open>
  Modelled from the spec: \<^verbatim>\<open>nearest\<close> of the Topic Store (section 4.3), whose code
  is not among the sources. The store is seen through the external similarity search:
  one pair of topic identifier and similarity score for every stored topic.
  \<^verbatim>\<open>nearest\<close> returns the single closest topic and its score, or nothing when the
  store is empty.
\<close>

fun nearest :: "(string \<times> 'a::linorder) list \<Rightarrow> (string \<times> 'a) option" where
  "nearest [] = None"
| "nearest ((t, s) # rest) =
     (case nearest rest of
        None \<Rightarrow> Some (t, s)
      | Some (t', s') \<Rightarrow> if s' > s then Some (t', s') else Some (t, s))"

text \<open>
  Modelled from the spec: \<^verbatim>\<open>classify\<close> of the Classifier (section 4.4), whose code is
  not among the sources. An empty description classifies as unresolved without a
  query; otherwise, if no topics exist or the best score is below
  \<^verbatim>\<open>match_threshold\<close> the decision is \<^verbatim>\<open>new_candidate\<close>, else it is
  \<^verbatim>\<open>matched\<close> with the returned topic.
\<close>

definition classify :: "string \<Rightarrow> (string \<times> 'a::linorder) list \<Rightarrow> 'a \<Rightarrow> decision" where
  "classify description scores match_threshold =
     (if description = [] then Unresolved
      else (case nearest scores of
              None \<Rightarrow> NewCandidate
            | Some (topic_id, score) \<Rightarrow>
                if score < match_threshold then NewCandidate else Matched topic_id))"

section \<open>The engine against the language of a pattern\<close>

lemma rep_self: "s \<in> set (rep a s)"
  by (cases s) auto

lemma rep_complete: "list_all (atom_ok a) w \<Longrightarrow> t \<in> set (rep a (w @ t))"
  by (induction w) (auto simp: rep_self)

lemma rep_sound: "t \<in> set (rep a s) \<Longrightarrow> \<exists>w. s = w @ t \<and> list_all (atom_ok a) w"
proof (induction s)
  case Nil
  then show ?case by simp
next
  case (Cons c s)
  show ?case
  proof (cases "t = c # s")
    case True
    then show ?thesis by simp
  next
    case False
    with Cons.prems have ok: "atom_ok a c" and "t \<in> set (rep a s)"
      by (auto split: if_splits)
    with Cons.IH obtain w where "s = w @ t" "list_all (atom_ok a) w" by blast
    with ok have "c # s = (c # w) @ t \<and> list_all (atom_ok a) (c # w)" by simp
    then show ?thesis by blast
  qed
qed

text \<open>Every word of the language is consumed by the engine, whatever follows it.\<close>

lemma matches_complete:
  "w \<in> lang r \<Longrightarrow> \<exists>g'. (t, g') \<in> set (matches r (w @ t) g)"
proof (induction r arbitrary: w t g)
  case (Lit l)
  then show ?case by simp
next
  case (One a)
  then show ?case by auto
next
  case (Star a)
  then have "t \<in> set (rep a (w @ t))" by (simp add: rep_complete)
  then show ?case by force
next
  case (Plus a)
  then obtain c w' where w: "w = c # w'" by (cases w) auto
  with Plus have ok: "atom_ok a c" and "list_all (atom_ok a) w'" by auto
  then have "t \<in> set (rep a (w' @ t))" by (simp add: rep_complete)
  with w ok show ?case by force
next
  case (Seq r1 r2)
  then obtain u v where w: "w = u @ v" and u: "u \<in> lang r1" and v: "v \<in> lang r2" by auto
  from Seq.IH(1)[OF u, of "v @ t" g]
  obtain g1 where g1: "(v @ t, g1) \<in> set (matches r1 (u @ v @ t) g)" by blast
  from Seq.IH(2)[OF v, of t g1]
  obtain g2 where g2: "(t, g2) \<in> set (matches r2 (v @ t) g1)" by blast
  from g1 g2 w show ?case by force
next
  case (Group n r)
  then have "w \<in> lang r" by simp
  from Group.IH[OF this, of t g]
  obtain g' where "(t, g') \<in> set (matches r (w @ t) g)" by blast
  then show ?case by force
qed

text \<open>Whatever the engine consumes is a word of the language.\<close>

lemma matches_sound:
  "(t, g') \<in> set (matches r s g) \<Longrightarrow> \<exists>w. s = w @ t \<and> w \<in> lang r"
proof (induction r arbitrary: s t g g')
  case (Lit l)
  then have "take (length l) s = l" "t = drop (length l) s" by (auto split: if_splits)
  then have "s = l @ t" by (metis append_take_drop_id)
  then show ?case by simp
next
  case (One a)
  then show ?case by (auto split: list.splits if_splits)
next
  case (Star a)
  then show ?case by (auto dest: rep_sound)
next
  case (Plus a)
  then obtain c s' where s: "s = c # s'" "atom_ok a c" "t \<in> set (rep a s')"
    by (auto split: list.splits if_splits)
  then obtain w where "s' = w @ t" "list_all (atom_ok a) w" by (auto dest: rep_sound)
  with s have "s = (c # w) @ t \<and> c # w \<in> lang (Plus a)" by simp
  then show ?case by blast
next
  case (Seq r1 r2)
  then obtain t1 g1 where 1: "(t1, g1) \<in> set (matches r1 s g)"
    and 2: "(t, g') \<in> set (matches r2 t1 g1)"
    by auto
  from Seq.IH(1)[OF 1] obtain u where u: "s = u @ t1" "u \<in> lang r1" by blast
  from Seq.IH(2)[OF 2] obtain v where v: "t1 = v @ t" "v \<in> lang r2" by blast
  from u v have "s = (u @ v) @ t \<and> u @ v \<in> lang (Seq r1 r2)" by auto
  then show ?case by blast
next
  case (Group n r)
  then obtain g1 where "(t, g1) \<in> set (matches r s g)" by auto
  from Group.IH[OF this] show ?case by simp
qed

lemma lang_of_full_match: "[] \<in> set (map fst (matches r w g)) \<Longrightarrow> w \<in> lang r"
  using matches_sound by fastforce

lemma search_from_hit:
  "matches r s Map.empty \<noteq> [] \<Longrightarrow> search_from r i (pre @ s) \<noteq> None"
proof (induction pre arbitrary: i)
  case Nil
  then show ?case by (cases s) (auto split: list.splits)
next
  case (Cons c pre)
  then show ?case by (auto split: list.splits)
qed

lemma search_from_sound:
  "search_from r i s = Some m \<Longrightarrow> \<exists>pre mid post. s = pre @ mid @ post \<and> mid \<in> lang r"
proof (induction s arbitrary: i)
  case Nil
  then obtain t g where "(t, g) \<in> set (matches r [] Map.empty)"
    by (auto split: list.splits)
  from matches_sound[OF this] show ?case by fastforce
next
  case (Cons c s)
  show ?case
  proof (cases "matches r (c # s) Map.empty")
    case Nil
    with Cons.prems have "search_from r (Suc i) s = Some m" by simp
    from Cons.IH[OF this]
    obtain pre mid post where "s = pre @ mid @ post" "mid \<in> lang r" by blast
    then have "c # s = (c # pre) @ mid @ post \<and> mid \<in> lang r" by simp
    then show ?thesis by blast
  next
    case (Cons x xs)
    then obtain t g where "(t, g) \<in> set (matches r (c # s) Map.empty)" by (cases x) auto
    from matches_sound[OF this] obtain w where "c # s = [] @ w @ t \<and> w \<in> lang r" by auto
    then show ?thesis by blast
  qed
qed

text \<open>\<^verbatim>\<open>search\<close> succeeds exactly on the messages that contain a word of the pattern.\<close>

lemma search_substring:
  "search r message \<noteq> None \<longleftrightarrow> (\<exists>pre mid post. message = pre @ mid @ post \<and> mid \<in> lang r)"
proof
  assume "search r message \<noteq> None"
  then show "\<exists>pre mid post. message = pre @ mid @ post \<and> mid \<in> lang r"
    unfolding search_def using search_from_sound by blast
next
  assume "\<exists>pre mid post. message = pre @ mid @ post \<and> mid \<in> lang r"
  then obtain pre mid post where m: "message = pre @ mid @ post" and l: "mid \<in> lang r"
    by blast
  from matches_complete[OF l, of post Map.empty]
  have "matches r (mid @ post) Map.empty \<noteq> []" by auto
  from search_from_hit[OF this] m show "search r message \<noteq> None" by (simp add: search_def)
qed

section \<open>The parser registry\<close>

text \<open>
  Claim C1. \<^verbatim>\<open>parse_with_regex\<close> returns the record that the handler of the first
  rule, in registration order, whose provider equals the event's provider and whose
  pattern is found in the message builds from that match; when there is no such rule
  it returns \<^verbatim>\<open>None\<close>. The result is a value in every case: the registry holds
  compiled patterns, and nothing is compiled or raised while parsing.
\<close>

theorem parse_with_regex_first_match:
  "parse_with_regex registry provider message =
     (case find (\<lambda>p. provider_name p = provider \<and> search (regex p) message \<noteq> None) registry of
        None \<Rightarrow> None
      | Some p \<Rightarrow> Some (handler p (the (search (regex p) message))))"
  by (induction registry) (auto split: option.splits)

theorem parse_with_regex_first_match_witness:
  "parse_with_regex
     [\<lparr>provider_name = ''P'', regex = Lit ''zz'', handler = (\<lambda>m. [(''rule'', PyStr ''zz'')])\<rparr>,
      \<lparr>provider_name = ''Q'', regex = Lit ''b'', handler = (\<lambda>m. [(''rule'', PyStr ''other'')])\<rparr>,
      \<lparr>provider_name = ''P'', regex = Plus (AChar (CHR ''b'')), handler = (\<lambda>m. [(''rule'', PyStr ''first'')])\<rparr>,
      \<lparr>provider_name = ''P'', regex = Lit ''b'', handler = (\<lambda>m. [(''rule'', PyStr ''second'')])\<rparr>]
     ''P'' ''abc'' = Some [(''rule'', PyStr ''first'')]
   \<and> parse_with_regex PARSER_REGISTRY ''Application Error'' ''abc'' = None"
  by (simp add: parse_with_regex_first_match search_def PARSER_REGISTRY_def app_error_regex_def)

lemma search_from_span:
  "search_from r i s = Some m \<Longrightarrow>
   \<exists>pre mid post. s = pre @ mid @ post \<and> mid \<in> lang r
      \<and> span_start m = i + length pre \<and> span_end m = span_start m + length mid"
proof (induction s arbitrary: i)
  case Nil
  show ?case
  proof (cases "matches r [] Map.empty")
    case Nil
    with Nil.prems show ?thesis by simp
  next
    case (Cons x xs)
    obtain t g where x: "x = (t, g)" by (cases x)
    with Cons have in_m: "(t, g) \<in> set (matches r [] Map.empty)" by simp
    from Cons x Nil.prems have m: "m = Match i i g" by simp
    from matches_sound[OF in_m] have "[] \<in> lang r" by simp
    with m have f: "[] = [] @ [] @ [] \<and> [] \<in> lang r
        \<and> span_start m = i + length ([] :: string)
        \<and> span_end m = span_start m + length ([] :: string)"
      by simp
    show ?thesis
      by (rule exI[of _ "[]"], rule exI[of _ "[]"], rule exI[of _ "[]"], rule f)
  qed
next
  case (Cons c s)
  show ?case
  proof (cases "matches r (c # s) Map.empty")
    case Nil
    with Cons.prems have "search_from r (Suc i) s = Some m" by simp
    from Cons.IH[OF this]
    obtain pre mid post where d: "s = pre @ mid @ post" "mid \<in> lang r"
      "span_start m = Suc i + length pre" "span_end m = span_start m + length mid"
      by blast
    then have f: "c # s = (c # pre) @ mid @ post \<and> mid \<in> lang r
        \<and> span_start m = i + length (c # pre) \<and> span_end m = span_start m + length mid"
      by simp
    show ?thesis
      by (rule exI[of _ "c # pre"], rule exI[of _ mid], rule exI[of _ post], rule f)
  next
    case (Cons x xs)
    obtain t g where x: "x = (t, g)" by (cases x)
    with Cons have in_m: "(t, g) \<in> set (matches r (c # s) Map.empty)" by simp
    from Cons x Cons.prems have m: "m = Match i (i + (length (c # s) - length t)) g" by simp
    from matches_sound[OF in_m] obtain w where w: "c # s = w @ t" "w \<in> lang r" by blast
    from arg_cong[OF w(1), of length] have "length (c # s) - length t = length w" by simp
    with m w have f: "c # s = [] @ w @ t \<and> w \<in> lang r
        \<and> span_start m = i + length ([] :: string) \<and> span_end m = span_start m + length w"
      by simp
    show ?thesis
      by (rule exI[of _ "[]"], rule exI[of _ w], rule exI[of _ t], rule f)
  qed
qed

lemma search_from_leftmost:
  "matches r s Map.empty \<noteq> [] \<Longrightarrow>
   \<exists>m. search_from r i (pre @ s) = Some m \<and> span_start m \<le> i + length pre"
proof (induction pre arbitrary: i)
  case Nil
  then show ?case by (cases s) (auto split: list.splits)
next
  case (Cons c pre)
  show ?case
  proof (cases "matches r ((c # pre) @ s) Map.empty")
    case Nil
    with Cons.IH[OF Cons.prems, of "Suc i"] show ?thesis by auto
  next
    case (Cons x xs)
    then show ?thesis by (cases x) auto
  qed
qed

text \<open>The span of a match delimits a word of the pattern inside the message.\<close>

lemma search_group0:
  assumes "search r message = Some m"
  shows "group0 m message \<in> lang r \<and> span_end m \<le> length message"
proof -
  from assms search_from_span[of r 0 message m]
  obtain pre mid post where d: "message = pre @ mid @ post" "mid \<in> lang r"
    "span_start m = length pre" "span_end m = span_start m + length mid"
    by (auto simp: search_def)
  then have "group0 m message = mid" by (simp add: group0_def)
  with d show ?thesis by simp
qed

lemma search_occurrence:
  assumes "mid \<in> lang r"
  shows "\<exists>m. search r (pre @ mid @ post) = Some m \<and> span_start m \<le> length pre"
proof -
  from matches_complete[OF assms, of post Map.empty]
  have "matches r (mid @ post) Map.empty \<noteq> []" by auto
  from search_from_leftmost[OF this, of 0 pre] show ?thesis by (simp add: search_def)
qed

lemma parse_with_regex_some_rule:
  "p \<in> set registry \<Longrightarrow> search (regex p) message \<noteq> None \<Longrightarrow>
   \<exists>q m. q \<in> set registry \<and> provider_name q = provider_name p
      \<and> search (regex q) message = Some m
      \<and> parse_with_regex registry (provider_name p) message = Some (handler q m)"
proof (induction registry)
  case Nil
  then show ?case by simp
next
  case (Cons a registry)
  show ?case
  proof (cases "provider_name a = provider_name p \<and> search (regex a) message \<noteq> None")
    case True
    then obtain m where "search (regex a) message = Some m" by auto
    with True have "a \<in> set (a # registry) \<and> provider_name a = provider_name p
        \<and> search (regex a) message = Some m
        \<and> parse_with_regex (a # registry) (provider_name p) message = Some (handler a m)"
      by simp
    then show ?thesis by blast
  next
    case False
    with Cons.prems have "p \<in> set registry" by auto
    from Cons.IH[OF this Cons.prems(2)]
    obtain q m where "q \<in> set registry" "provider_name q = provider_name p"
      "search (regex q) message = Some m"
      "parse_with_regex registry (provider_name p) message = Some (handler q m)"
      by blast
    with False have "q \<in> set (a # registry) \<and> provider_name q = provider_name p
        \<and> search (regex q) message = Some m
        \<and> parse_with_regex (a # registry) (provider_name p) message = Some (handler q m)"
      by auto
    then show ?thesis by blast
  qed
qed

text \<open>
  Claim C10. Whenever a word of a registered rule's pattern occurs anywhere inside the
  message, whatever text surrounds it, \<^verbatim>\<open>search\<close> finds a match of that pattern
  that starts at or before the occurrence and spans a word of the pattern, and the
  message is parsed: the result is the record that the handler of a rule of the same
  provider builds from a match of its own pattern in the message. The message need not
  conform to any pattern as a whole.
\<close>

theorem parse_with_regex_substring:
  "p \<in> set registry \<Longrightarrow> mid \<in> lang (regex p) \<Longrightarrow>
   (\<exists>m. search (regex p) (pre @ mid @ post) = Some m
        \<and> span_start m \<le> length pre
        \<and> group0 m (pre @ mid @ post) \<in> lang (regex p))
   \<and> (\<exists>q m. q \<in> set registry \<and> provider_name q = provider_name p
        \<and> search (regex q) (pre @ mid @ post) = Some m
        \<and> group0 m (pre @ mid @ post) \<in> lang (regex q)
        \<and> parse_with_regex registry (provider_name p) (pre @ mid @ post) = Some (handler q m))"
proof
  assume p: "p \<in> set registry" and mid: "mid \<in> lang (regex p)"
  from search_occurrence[OF mid, of pre post]
  obtain m where m: "search (regex p) (pre @ mid @ post) = Some m" "span_start m \<le> length pre"
    by blast
  with search_group0[OF m(1)]
  show "\<exists>m. search (regex p) (pre @ mid @ post) = Some m
        \<and> span_start m \<le> length pre
        \<and> group0 m (pre @ mid @ post) \<in> lang (regex p)"
    by blast
  from m have "search (regex p) (pre @ mid @ post) \<noteq> None" by simp
  from parse_with_regex_some_rule[OF p this]
  obtain q m' where q: "q \<in> set registry" "provider_name q = provider_name p"
    "search (regex q) (pre @ mid @ post) = Some m'"
    "parse_with_regex registry (provider_name p) (pre @ mid @ post) = Some (handler q m')"
    by blast
  with search_group0[OF q(3)]
  show "\<exists>q m. q \<in> set registry \<and> provider_name q = provider_name p
        \<and> search (regex q) (pre @ mid @ post) = Some m
        \<and> group0 m (pre @ mid @ post) \<in> lang (regex q)
        \<and> parse_with_regex registry (provider_name p) (pre @ mid @ post) = Some (handler q m)"
    by blast
qed

theorem parse_with_regex_substring_witness:
  "\<exists>m. search app_error_regex (''[12:00] '' @ crash_message @ '' (reported twice)'') = Some m
      \<and> group0 m (''[12:00] '' @ crash_message @ '' (reported twice)'') \<in> lang app_error_regex
      \<and> parse_with_regex PARSER_REGISTRY ''Application Error''
           (''[12:00] '' @ crash_message @ '' (reported twice)'') = Some (handle_app_error m)"
proof -
  let ?p = "\<lparr>provider_name = ''Application Error'', regex = app_error_regex,
             handler = handle_app_error\<rparr>"
  define pre where "pre = ''[12:00] ''"
  define mid where "mid = crash_message"
  define post where "post = '' (reported twice)''"
  have mem: "?p \<in> set PARSER_REGISTRY" by (simp add: PARSER_REGISTRY_def)
  have "[] \<in> set (map fst (matches app_error_regex crash_message Map.empty))" by code_simp
  then have "crash_message \<in> lang app_error_regex" by (rule lang_of_full_match)
  then have l: "mid \<in> lang (regex ?p)" by (simp add: mid_def)
  from parse_with_regex_substring[OF mem l, of pre post]
  obtain q m where q: "q \<in> set PARSER_REGISTRY"
    and s: "search (regex q) (pre @ mid @ post) = Some m"
    and g: "group0 m (pre @ mid @ post) \<in> lang (regex q)"
    and r: "parse_with_regex PARSER_REGISTRY (provider_name ?p) (pre @ mid @ post)
              = Some (handler q m)"
    by blast
  from q have qp: "q = ?p" by (simp add: PARSER_REGISTRY_def)
  from s g r have "search app_error_regex (pre @ mid @ post) = Some m
      \<and> group0 m (pre @ mid @ post) \<in> lang app_error_regex
      \<and> parse_with_regex PARSER_REGISTRY ''Application Error'' (pre @ mid @ post)
          = Some (handle_app_error m)"
    unfolding qp by simp
  then show ?thesis unfolding pre_def mid_def post_def by (rule exI)
qed

section \<open>The constrained extractor\<close>

lemma validate_literal_Some:
  "validate_literal allowed x = Some v \<longleftrightarrow>
     (\<exists>s. x = Some (JStr s) \<and> s \<in> set allowed \<and> v = PyStr s)"
  by (cases "(allowed, x)" rule: validate_literal.cases) auto

lemma validate_optional_str_Some:
  "validate_optional_str x = Some v \<longleftrightarrow>
     ((x = None \<or> x = Some JNull) \<and> v = PyNone) \<or> (\<exists>s. x = Some (JStr s) \<and> v = PyStr s)"
  by (cases x rule: validate_optional_str.cases) auto

lemma validate_str_Some:
  "validate_str x = Some v \<longleftrightarrow> (\<exists>s. x = Some (JStr s) \<and> v = PyStr s)"
  by (cases x rule: validate_str.cases) auto

text \<open>Validation succeeds exactly on the replies that conform to the schema.\<close>

lemma validate_ActivityLog_conforms:
  "validate_ActivityLog j \<noteq> None \<longleftrightarrow> conforms_ActivityLog j"
proof (cases j)
  case (JObj kvs)
  show ?thesis
  proof
    assume "validate_ActivityLog j \<noteq> None"
    then obtain e a f y where
      "validate_literal event_type_literals (obj_get kvs ''event_type'') = Some e"
      "validate_optional_str (obj_get kvs ''app_name'') = Some a"
      "validate_optional_str (obj_get kvs ''file_path'') = Some f"
      "validate_str (obj_get kvs ''summary'') = Some y"
      using JObj by (auto simp: validate_ActivityLog_def split: option.splits)
    then show "conforms_ActivityLog j"
      unfolding validate_literal_Some validate_optional_str_Some validate_str_Some
        conforms_ActivityLog_def JObj
      by blast
  next
    assume "conforms_ActivityLog j"
    then obtain e y where
      e: "obj_get kvs ''event_type'' = Some (JStr e)" "e \<in> set event_type_literals"
      and a: "validate_optional_str (obj_get kvs ''app_name'') \<noteq> None"
      and f: "validate_optional_str (obj_get kvs ''file_path'') \<noteq> None"
      and y: "obj_get kvs ''summary'' = Some (JStr y)"
      unfolding conforms_ActivityLog_def JObj by auto
    then show "validate_ActivityLog j \<noteq> None"
      using JObj by (auto simp: validate_ActivityLog_def split: option.splits)
  qed
qed (auto simp: validate_ActivityLog_def conforms_ActivityLog_def)

text \<open>
  Claim C2. \<^verbatim>\<open>parse_with_llm\<close> returns \<^verbatim>\<open>None\<close> whenever the call raises (a
  timeout included) or the reply does not conform to \<^verbatim>\<open>ActivityLog\<close>: a required
  field is missing, a field has the wrong type, or \<^verbatim>\<open>event_type\<close> is outside its
  enumerated set. These are the only cases in which it returns \<^verbatim>\<open>None\<close>, and no
  record, partial or defaulted, comes back in them.
\<close>

theorem parse_with_llm_unresolved:
  "fst (parse_with_llm client message) = None \<longleftrightarrow>
     (client message = Raised
      \<or> (\<exists>j. client message = Returned j \<and> \<not> conforms_ActivityLog j))"
proof (cases "client message")
  case Raised
  then show ?thesis by (simp add: parse_with_llm_def)
next
  case (Returned j)
  have "fst (parse_with_llm client message) = None \<longleftrightarrow> validate_ActivityLog j = None"
    using Returned by (simp add: parse_with_llm_def split: option.splits)
  with validate_ActivityLog_conforms[of j] Returned show ?thesis by auto
qed

theorem parse_with_llm_unresolved_witness:
  "fst (parse_with_llm
     (\<lambda>m. Returned (JObj [(''event_type'', JStr ''random_new_value''), (''app_name'', JNull),
                           (''summary'', JStr ''the user did something'')]))
     ''the user did something'') = None
   \<and> fst (parse_with_llm (\<lambda>m. Returned (JObj [(''event_type'', JStr ''unknown'')])) ''x'') = None
   \<and> fst (parse_with_llm
        (\<lambda>m. Returned (JObj [(''event_type'', JStr ''unknown''), (''summary'', JNum ''3'')]))
        ''x'') = None
   \<and> fst (parse_with_llm (\<lambda>m. Raised) ''x'') = None"
  by (simp add: parse_with_llm_unresolved conforms_ActivityLog_def obj_get_def
      event_type_literals_def)

section \<open>The funnel\<close>

lemma crash_message_parsed:
  "parse_with_regex PARSER_REGISTRY ''Application Error'' crash_message = Some crash_record"
  by code_simp

text \<open>Word characters outside ASCII are part of an application name.\<close>

lemma latin1_app_name_parsed:
  "parse_with_regex PARSER_REGISTRY ''Application Error''
     (''Faulting application name: caf'' @ [CHR 0xE9] @ ''.exe, Faulting module name: k''
        @ [CHR 0xB2] @ ''.dll, Exception code: 0xC0000005'')
   = Some [(''event_type'', PyStr ''application_crash''),
           (''app_name'', PyStr (''caf'' @ [CHR 0xE9] @ ''.exe'')),
           (''module_name'', PyStr (''k'' @ [CHR 0xB2] @ ''.dll'')),
           (''error_code'', PyStr ''0xC0000005'')]"
  by code_simp

lemma funnel_step_hit:
  "parse_with_regex registry provider message = Some d \<Longrightarrow>
   funnel_step registry svc st (provider, message) =
     (if d \<noteq> [] then st\<lparr>parsed_logs := parsed_logs st @ [d]\<rparr> else st)"
  by (simp add: funnel_step_def)

lemma funnel_step_miss:
  "parse_with_regex registry provider message = None \<Longrightarrow>
   funnel_step registry svc st (provider, message) =
     (let (res, printed) = parse_with_llm (svc (length (llm_calls st))) message;
          st1 = st\<lparr>llm_calls := llm_calls st @ [message],
                    stdout := stdout st @ [RegexFailed provider] @ printed\<rparr>
      in if truthy res then st1\<lparr>parsed_logs := parsed_logs st1 @ [the res]\<rparr> else st1)"
  by (simp add: funnel_step_def split: prod.splits)

lemma funnel_step_llm_calls:
  "llm_calls (funnel_step registry svc st (provider, message)) =
     (if parse_with_regex registry provider message = None
      then llm_calls st @ [message] else llm_calls st)"
  by (cases "parse_with_regex registry provider message")
     (auto simp: funnel_step_hit funnel_step_miss Let_def split: prod.splits)

lemma foldl_llm_calls:
  "llm_calls (foldl (funnel_step registry svc) st events) =
     llm_calls st
     @ map snd (filter (\<lambda>(provider, message). parse_with_regex registry provider message = None)
                  events)"
  by (induction events arbitrary: st) (auto simp: funnel_step_llm_calls)

text \<open>
  Claim C3. The model service is called for exactly the events on which the deterministic
  parse returns \<^verbatim>\<open>None\<close>, once each and in stream order: an event whose message
  matches a registered pattern of its provider causes no call.
\<close>

theorem process_logs_llm_calls:
  "llm_calls (process_logs registry evt_query svc) =
     map snd (filter (\<lambda>(provider, message). parse_with_regex registry provider message = None)
                (yielded (evt_query 0 ''Application'')))"
  by (simp add: process_logs_def fetch_windows_event_logs_def Let_def foldl_llm_calls)

theorem process_logs_llm_calls_witness:
  "llm_calls (process_logs PARSER_REGISTRY
     (\<lambda>n channel. \<lparr>yielded = [(''Application Error'', crash_message), (''Other'', ''hello''),
                               (''Application Error'', crash_message)],
                    raised = False\<rparr>)
     (\<lambda>n m. Raised)) = [''hello'']"
proof -
  have "parse_with_regex PARSER_REGISTRY ''Other'' ''hello'' = None"
    by (simp add: PARSER_REGISTRY_def)
  then show ?thesis
    by (simp add: process_logs_llm_calls crash_message_parsed)
qed

lemma parse_with_llm_None:
  "fst (parse_with_llm client message) = None \<Longrightarrow>
   parse_with_llm client message = (None, [LLMFailed])"
  by (auto simp: parse_with_llm_def split: llm_outcome.splits option.splits)

lemma parse_with_llm_keys:
  "fst (parse_with_llm client message) = Some d \<Longrightarrow>
   map fst d = [''event_type'', ''app_name'', ''file_path'', ''summary'']"
  by (auto simp: parse_with_llm_def validate_ActivityLog_def
      split: llm_outcome.splits option.splits json.splits)

lemma funnel_step_reader_queries:
  "reader_queries (funnel_step registry svc st ev) = reader_queries st"
proof (cases ev)
  case (Pair provider message)
  then show ?thesis
    by (cases "parse_with_regex registry provider message")
       (auto simp: funnel_step_hit funnel_step_miss Let_def split: prod.splits)
qed

lemma foldl_reader_queries:
  "reader_queries (foldl (funnel_step registry svc) st events) = reader_queries st"
  by (induction events arbitrary: st) (auto simp: funnel_step_reader_queries)

text \<open>
  Claim C5, as the code has it. For the crash report of provider
  \<^verbatim>\<open>Application Error\<close> the deterministic parse succeeds with
  \<^verbatim>\<open>event_type = application_crash\<close>, \<^verbatim>\<open>app_name = app.exe\<close>,
  \<^verbatim>\<open>module_name = k.dll\<close> and \<^verbatim>\<open>error_code = 0xC0000005\<close>; the loop appends
  exactly this record and makes no model call, whatever the model service would answer.
\<close>

theorem crash_message_funnel:
  "parse_with_regex PARSER_REGISTRY ''Application Error'' crash_message = Some crash_record
   \<and> funnel_step PARSER_REGISTRY svc st (''Application Error'', crash_message)
       = st\<lparr>parsed_logs := parsed_logs st @ [crash_record]\<rparr>
   \<and> llm_calls (funnel_step PARSER_REGISTRY svc st (''Application Error'', crash_message))
       = llm_calls st"
  by (simp add: crash_message_parsed funnel_step_hit)

theorem crash_message_funnel_witness:
  "process_logs PARSER_REGISTRY
     (\<lambda>n channel. \<lparr>yielded = [(''Application Error'', crash_message)], raised = False\<rparr>)
     (\<lambda>n m. Raised)
   = \<lparr>parsed_logs = [crash_record], llm_calls = [],
      stdout = [Fetching ''Application'', Summary 1, Dump [crash_record]],
      reader_queries = 1\<rparr>"
  by (simp add: process_logs_def fetch_windows_event_logs_def Let_def crash_message_funnel)

text \<open>
  Claim C5 as stated fails in one field: the record of \<^verbatim>\<open>handle_app_error\<close> has no
  \<^verbatim>\<open>extraction_method\<close> key, so reading it gives \<^verbatim>\<open>None\<close>, not
  \<^verbatim>\<open>deterministic\<close>.
\<close>

theorem crash_record_no_extraction_method:
  "parse_with_regex PARSER_REGISTRY ''Application Error'' crash_message = Some crash_record
   \<and> dict_get crash_record ''extraction_method'' = PyNone"
  by (simp add: crash_message_parsed dict_get_def)

text \<open>
  Claim C6, as the code has it. When the deterministic parse and the extractor both
  fail for an event, the loop prints the two failure lines and goes on: the state
  changes in the record of calls and in the printed output only, and nothing is kept
  of the event. The records that are produced hold the fields of the schema or of the
  handler, without a field for the layer that produced them or for a classification.
\<close>

theorem unresolved_event_dropped:
  "(parse_with_regex registry provider message = None
      \<and> fst (parse_with_llm (svc (length (llm_calls st))) message) = None \<longrightarrow>
    funnel_step registry svc st (provider, message)
      = st\<lparr>llm_calls := llm_calls st @ [message],
            stdout := stdout st @ [RegexFailed provider, LLMFailed]\<rparr>)
   \<and> (fst (parse_with_llm client message) = Some d \<longrightarrow>
        map fst d = [''event_type'', ''app_name'', ''file_path'', ''summary''])
   \<and> map fst (handle_app_error m) = [''event_type'', ''app_name'', ''module_name'', ''error_code'']"
proof (intro conjI impI)
  assume a: "parse_with_regex registry provider message = None
      \<and> fst (parse_with_llm (svc (length (llm_calls st))) message) = None"
  then have "parse_with_llm (svc (length (llm_calls st))) message = (None, [LLMFailed])"
    by (simp add: parse_with_llm_None)
  with a show "funnel_step registry svc st (provider, message)
      = st\<lparr>llm_calls := llm_calls st @ [message],
            stdout := stdout st @ [RegexFailed provider, LLMFailed]\<rparr>"
    by (simp add: funnel_step_miss)
next
  assume "fst (parse_with_llm client message) = Some d"
  then show "map fst d = [''event_type'', ''app_name'', ''file_path'', ''summary'']"
    by (rule parse_with_llm_keys)
next
  show "map fst (handle_app_error m)
      = [''event_type'', ''app_name'', ''module_name'', ''error_code'']"
    by (simp add: handle_app_error_def Let_def)
qed

theorem unresolved_event_dropped_witness:
  "funnel_step PARSER_REGISTRY (\<lambda>n m. Raised)
     \<lparr>parsed_logs = [], llm_calls = [], stdout = [], reader_queries = 1\<rparr> (''Other'', ''hello'')
   = \<lparr>parsed_logs = [], llm_calls = [''hello''], stdout = [RegexFailed ''Other'', LLMFailed],
      reader_queries = 1\<rparr>"
proof -
  have 1: "parse_with_regex PARSER_REGISTRY ''Other'' ''hello'' = None"
    by (simp add: PARSER_REGISTRY_def)
  have 2: "fst (parse_with_llm (\<lambda>m. Raised) ''hello'') = None"
    by (simp add: parse_with_llm_def)
  from unresolved_event_dropped[of PARSER_REGISTRY "''Other''" "''hello''" "\<lambda>n m. Raised"
        "\<lparr>parsed_logs = [], llm_calls = [], stdout = [], reader_queries = 1\<rparr>"] 1 2
  show ?thesis by simp
qed

text \<open>
  Claim C6 as stated fails: a run over one event that neither layer can parse ends with
  an empty list of records and no other collection; the event is only mentioned in the
  printed lines.
\<close>

theorem unresolved_event_not_queued:
  "process_logs PARSER_REGISTRY
     (\<lambda>n channel. \<lparr>yielded = [(''Other'', ''hello'')], raised = False\<rparr>)
     (\<lambda>n m. Raised)
   = \<lparr>parsed_logs = [], llm_calls = [''hello''],
      stdout = [Fetching ''Application'', RegexFailed ''Other'', LLMFailed, Summary 0, Dump []],
      reader_queries = 1\<rparr>"
  by (simp add: process_logs_def fetch_windows_event_logs_def Let_def funnel_step_def
      PARSER_REGISTRY_def parse_with_llm_def)

section \<open>The event reader\<close>

text \<open>
  Claim C7, as the code has it. When the reader raises, the generator prints an error
  line and ends: one query has been issued, the events delivered before the failure are
  processed as if the stream had ended there, and \<^verbatim>\<open>process_logs\<close> completes.
\<close>

theorem reader_failure_ends_stream:
  "raised (evt_query 0 ''Application'') \<Longrightarrow>
   reader_queries (process_logs registry evt_query svc) = 1
   \<and> parsed_logs (process_logs registry evt_query svc)
       = parsed_logs (process_logs registry
           (\<lambda>n channel. \<lparr>yielded = yielded (evt_query 0 ''Application''), raised = False\<rparr>) svc)
   \<and> llm_calls (process_logs registry evt_query svc)
       = llm_calls (process_logs registry
           (\<lambda>n channel. \<lparr>yielded = yielded (evt_query 0 ''Application''), raised = False\<rparr>) svc)
   \<and> ErrorFetching ''Application'' \<in> set (stdout (process_logs registry evt_query svc))"
  by (simp add: process_logs_def fetch_windows_event_logs_def Let_def foldl_reader_queries)

theorem reader_failure_ends_stream_witness:
  "parsed_logs (process_logs PARSER_REGISTRY
     (\<lambda>n channel. if n = 0
        then \<lparr>yielded = [(''Application Error'', crash_message)], raised = True\<rparr>
        else \<lparr>yielded = [(''Application Error'', crash_message),
                          (''Application Error'', crash_message)], raised = False\<rparr>)
     (\<lambda>n m. Raised)) = [crash_record]
   \<and> reader_queries (process_logs PARSER_REGISTRY
     (\<lambda>n channel. if n = 0
        then \<lparr>yielded = [(''Application Error'', crash_message)], raised = True\<rparr>
        else \<lparr>yielded = [(''Application Error'', crash_message),
                          (''Application Error'', crash_message)], raised = False\<rparr>)
     (\<lambda>n m. Raised)) = 1"
proof -
  let ?q = "\<lambda>(n::nat) (channel::string). if n = 0
        then \<lparr>yielded = [(''Application Error'', crash_message)], raised = True\<rparr>
        else \<lparr>yielded = [(''Application Error'', crash_message),
                          (''Application Error'', crash_message)], raised = False\<rparr>"
  have "parsed_logs (process_logs PARSER_REGISTRY
          (\<lambda>n channel. \<lparr>yielded = yielded (?q 0 ''Application''), raised = False\<rparr>)
          (\<lambda>n m. Raised)) = [crash_record]"
    by (simp add: process_logs_def fetch_windows_event_logs_def Let_def funnel_step_hit
        crash_message_parsed)
  with reader_failure_ends_stream[of ?q PARSER_REGISTRY "\<lambda>n m. Raised"]
  show ?thesis by simp
qed

text \<open>
  Claim C7 as stated fails: with an event log whose first query raises at once and whose
  second query would deliver an event, the run ends with no record and one query.
\<close>

theorem reader_failure_no_retry:
  "process_logs PARSER_REGISTRY
     (\<lambda>n channel. if n = 0 then \<lparr>yielded = [], raised = True\<rparr>
                   else \<lparr>yielded = [(''Application Error'', crash_message)], raised = False\<rparr>)
     (\<lambda>n m. Raised)
   = \<lparr>parsed_logs = [], llm_calls = [],
      stdout = [Fetching ''Application'', ErrorFetching ''Application'', Summary 0, Dump []],
      reader_queries = 1\<rparr>"
  by (simp add: process_logs_def fetch_windows_event_logs_def Let_def)

section \<open>Repeated events\<close>

lemma funnel_step_count:
  "count_list (parsed_logs st) d \<le> count_list (parsed_logs (funnel_step registry svc st ev)) d"
proof (cases ev)
  case (Pair provider message)
  then show ?thesis
    by (cases "parse_with_regex registry provider message")
       (auto simp: funnel_step_hit funnel_step_miss Let_def split: prod.splits)
qed

lemma foldl_count:
  assumes "parse_with_regex registry provider message = Some d" "d \<noteq> []"
  shows "count_list (parsed_logs st) d + count_list events (provider, message)
           \<le> count_list (parsed_logs (foldl (funnel_step registry svc) st events)) d"
proof (induction events arbitrary: st)
  case Nil
  then show ?case by simp
next
  case (Cons ev events)
  show ?case
  proof (cases "ev = (provider, message)")
    case True
    with assms have "count_list (parsed_logs (funnel_step registry svc st ev)) d
        = Suc (count_list (parsed_logs st) d)"
      by (simp add: funnel_step_hit)
    with Cons.IH[of "funnel_step registry svc st ev"] True show ?thesis by simp
  next
    case False
    with Cons.IH[of "funnel_step registry svc st ev"] funnel_step_count[of st d registry svc ev]
    show ?thesis by simp
  qed
qed

text \<open>
  Claim C8, as the code has it. Every occurrence of a deterministically parsed event in
  the stream appends its own record: the record occurs in \<^verbatim>\<open>parsed_logs\<close> at least
  as often as the event occurs in the stream.
\<close>

theorem repeated_event_repeated_record:
  "parse_with_regex registry provider message = Some d \<Longrightarrow> d \<noteq> [] \<Longrightarrow>
   count_list (yielded (evt_query 0 ''Application'')) (provider, message)
     \<le> count_list (parsed_logs (process_logs registry evt_query svc)) d"
  using foldl_count[of registry provider message d
      "\<lparr>parsed_logs = [], llm_calls = [], stdout = [Fetching ''Application''],
        reader_queries = Suc 0\<rparr>"
      "yielded (evt_query 0 ''Application'')" svc]
  by (simp add: process_logs_def fetch_windows_event_logs_def Let_def)

theorem repeated_event_repeated_record_witness:
  "2 \<le> count_list (parsed_logs (process_logs PARSER_REGISTRY
     (\<lambda>n channel. \<lparr>yielded = [(''Application Error'', crash_message), (''Other'', ''hello''),
                               (''Application Error'', crash_message)], raised = False\<rparr>)
     (\<lambda>n m. Raised))) crash_record"
  using repeated_event_repeated_record[OF crash_message_parsed, of
     "\<lambda>n channel. \<lparr>yielded = [(''Application Error'', crash_message), (''Other'', ''hello''),
                               (''Application Error'', crash_message)], raised = False\<rparr>"
     "\<lambda>n m. Raised"]
  by simp

text \<open>
  Claim C8 as stated fails: a stream that holds the same event twice gives two equal
  records.
\<close>

theorem same_event_twice_two_records:
  "parsed_logs (process_logs PARSER_REGISTRY
     (\<lambda>n channel. \<lparr>yielded = [(''Application Error'', crash_message),
                               (''Application Error'', crash_message)], raised = False\<rparr>)
     (\<lambda>n m. Raised)) = [crash_record, crash_record]"
  by (simp add: process_logs_def fetch_windows_event_logs_def Let_def funnel_step_hit
      crash_message_parsed)

section \<open>The classifier\<close>

lemma nearest_None: "nearest scores = None \<longleftrightarrow> scores = []"
  by (induction scores rule: nearest.induct) (auto split: option.splits)

lemma nearest_max:
  "nearest scores = Some (t, s) \<Longrightarrow> (t, s) \<in> set scores \<and> (\<forall>x\<in>set scores. snd x \<le> s)"
proof (induction scores arbitrary: t s rule: nearest.induct)
  case 1
  then show ?case by simp
next
  case (2 t0 s0 rest)
  show ?case
  proof (cases "nearest rest")
    case None
    with "2.prems" nearest_None[of rest] show ?thesis by auto
  next
    case (Some p)
    obtain t' s' where p: "p = (t', s')" by (cases p)
    from "2.IH"[of t' s'] Some p
    have ih: "(t', s') \<in> set rest" "\<forall>x\<in>set rest. snd x \<le> s'" by auto
    show ?thesis
    proof (cases "s' > s0")
      case True
      with "2.prems" Some p have "t = t'" "s = s'" by auto
      with ih True show ?thesis by auto
    next
      case False
      with "2.prems" Some p have "t = t0" "s = s0" by auto
      with ih False show ?thesis by fastforce
    qed
  qed
qed

text \<open>
  Claim C4. For a record with a description, a nearest topic whose score equals
  \<^verbatim>\<open>match_threshold\<close> is matched; the decision is \<^verbatim>\<open>new_candidate\<close> exactly when
  every stored topic scores strictly below the threshold, which includes the empty
  store; and a matched topic is a stored topic of the highest score, which is at least
  the threshold.
\<close>

theorem classify_threshold_inclusive:
  "description \<noteq> [] \<Longrightarrow>
   (nearest scores = Some (t, match_threshold) \<longrightarrow>
      classify description scores match_threshold = Matched t)
   \<and> (classify description scores match_threshold = NewCandidate
        \<longleftrightarrow> (\<forall>x\<in>set scores. snd x < match_threshold))
   \<and> classify description [] match_threshold = NewCandidate
   \<and> (classify description scores match_threshold = Matched t \<longrightarrow>
        (\<exists>s. (t, s) \<in> set scores \<and> match_threshold \<le> s \<and> (\<forall>x\<in>set scores. snd x \<le> s)))"
proof (cases "nearest scores")
  case None
  assume "description \<noteq> []"
  moreover from None have "scores = []" by (simp add: nearest_None)
  ultimately show ?thesis by (simp add: classify_def)
next
  case (Some p)
  assume d: "description \<noteq> []"
  obtain t' s' where p: "p = (t', s')" by (cases p)
  from nearest_max[of scores t' s'] Some p
  have mx: "(t', s') \<in> set scores" "\<forall>x\<in>set scores. snd x \<le> s'" by auto
  have e: "classify description [] match_threshold = NewCandidate"
    using d by (simp add: classify_def)
  show ?thesis
  proof (cases "s' < match_threshold")
    case True
    then have c: "classify description scores match_threshold = NewCandidate"
      using Some p d by (simp add: classify_def)
    from mx(2) True have "\<forall>x\<in>set scores. snd x < match_threshold" by fastforce
    with c e Some p True show ?thesis by auto
  next
    case False
    then have c: "classify description scores match_threshold = Matched t'"
      using Some p d by (simp add: classify_def)
    from mx(1) False have "\<not> (\<forall>x\<in>set scores. snd x < match_threshold)" by fastforce
    with c e mx False Some p show ?thesis by auto
  qed
qed

theorem classify_threshold_inclusive_witness:
  "classify ''Activity involved applications: vscode.exe.''
     [(''Project IntelliOS - Backend'', 0.93::real), (''AI Research Paper'', 0.42)] 0.93
     = Matched ''Project IntelliOS - Backend''
   \<and> classify ''Activity involved applications: vscode.exe.''
       [(''Project IntelliOS - Backend'', 0.93::real), (''AI Research Paper'', 0.42)] 0.94
     = NewCandidate
   \<and> classify ''Activity involved applications: vscode.exe.'' ([] :: (string \<times> real) list) 0.93
     = NewCandidate"
proof -
  have d: "''Activity involved applications: vscode.exe.'' \<noteq> []" by simp
  have n: "nearest [(''Project IntelliOS - Backend'', 0.93::real), (''AI Research Paper'', 0.42)]
      = Some (''Project IntelliOS - Backend'', 0.93)"
    by simp
  from classify_threshold_inclusive[OF d, of
      "[(''Project IntelliOS - Backend'', 0.93::real), (''AI Research Paper'', 0.42)]"
      "''Project IntelliOS - Backend''" "0.93"]
    classify_threshold_inclusive[OF d, of
      "[(''Project IntelliOS - Backend'', 0.93::real), (''AI Research Paper'', 0.42)]"
      "''Project IntelliOS - Backend''" "0.94"]
    classify_threshold_inclusive[OF d, of "[] :: (string \<times> real) list" "[]" "0.93"]
    n
  show ?thesis by simp
qed

end
